theory Spec2Isabelle
  imports Complex_Main "HOL-Library.Signed_Division"
begin

section \<open>Data model\<close>

text \<open>
  JavaScript numbers are modelled as reals: arithmetic is exact and every number is finite.
  A field that an object may lack is an \<open>option\<close>, with \<open>None\<close> for \<open>undefined\<close>.
  Where the source can produce \<open>NaN\<close> or an infinity from finite inputs (\<open>undefined + n\<close>,
  a division by zero), that outcome is a \<open>None\<close> of the model, written out at that place.
\<close>

datatype js_error = TypeError

text \<open>\<open>x || d\<close> on a number that may be missing: \<open>undefined\<close> and \<open>0\<close> are falsy.\<close>

definition num_or :: "real option \<Rightarrow> real \<Rightarrow> real" where
  "num_or x d = (case x of None \<Rightarrow> d | Some v \<Rightarrow> if v = 0 then d else v)"

definition int_or :: "int option \<Rightarrow> int \<Rightarrow> int" where
  "int_or x d = (case x of None \<Rightarrow> d | Some v \<Rightarrow> if v = 0 then d else v)"

text \<open>Truthiness of a number that may be missing, as in \<open>if (visemeData.duration)\<close>.\<close>

definition truthy :: "real option \<Rightarrow> bool" where
  "truthy x = (case x of None \<Rightarrow> False | Some v \<Rightarrow> v \<noteq> 0)"

text \<open>\<open>xs[i]\<close>: an index outside the array reads \<open>undefined\<close>.\<close>

definition js_nth :: "'a list \<Rightarrow> int \<Rightarrow> 'a option" where
  "js_nth xs i = (if 0 \<le> i \<and> i < int (length xs) then Some (xs ! nat i) else None)"

text \<open>
  One viseme event as the backend sends it. The field \<open>end\<close> of the source is \<open>end_time\<close>
  here. Any further field an event carries lives in the record's extension part.
\<close>

record viseme_event =
  viseme :: "int option"
  start :: "real option"
  duration :: "real option"
  end_time :: "real option"

type_synonym 'a event = "'a viseme_event_scheme"

section \<open>getVisemeAtTime\<close>

text \<open>The \<open>for\<close> loop of the branch for fewer than 50 events.\<close>

fun linear_scan :: "real \<Rightarrow> 'a event list \<Rightarrow> int option" where
  "linear_scan audioTime [] = None"
| "linear_scan audioTime (v # vs) =
     (let vstart = num_or (start v) 0;
          vend = num_or (end_time v) (vstart + num_or (duration v) 0)
      in if audioTime \<ge> vstart \<and> audioTime < vend then Some (int_or (viseme v) 0)
         else linear_scan audioTime vs)"

text \<open>
  The \<open>while\<close> loop of the other branch. \<open>Inr (Some c)\<close> is a \<open>return c\<close> from inside the loop,
  \<open>Inr None\<close> is the loop ending without a return, and \<open>Inl TypeError\<close> is a property read on
  an \<open>undefined\<close> element.
\<close>

function binary_search :: "real \<Rightarrow> 'a event list \<Rightarrow> int \<Rightarrow> int \<Rightarrow> js_error + int option" where
  "binary_search audioTime vs left right =
     (if left \<le> right then
        (let mid = (left + right) div 2 in
         case js_nth vs mid of
           None \<Rightarrow> Inl TypeError
         | Some v \<Rightarrow>
             (let vstart = num_or (start v) 0;
                  vend = num_or (end_time v) (vstart + num_or (duration v) 0)
              in if audioTime \<ge> vstart \<and> audioTime < vend then Inr (Some (int_or (viseme v) 0))
                 else if audioTime < vstart then binary_search audioTime vs left (mid - 1)
                 else binary_search audioTime vs (mid + 1) right))
      else Inr None)"
  by pat_completeness auto
termination
  by (relation "measure (\<lambda>(audioTime, vs, left, right). nat (right - left + 1))") auto

declare binary_search.simps [simp del]

text \<open>
  \<open>lastViseme.end || (lastViseme.start + (lastViseme.duration || 0))\<close>: the start is read
  without a default here, so a missing start makes the sum \<open>NaN\<close> (\<open>None\<close>).
\<close>

definition last_end :: "'a event \<Rightarrow> real option" where
  "last_end lastViseme =
     (if truthy (end_time lastViseme) then end_time lastViseme
      else (case start lastViseme of
              None \<Rightarrow> None
            | Some s \<Rightarrow> Some (s + num_or (duration lastViseme) 0)))"

text \<open>\<open>audioTime < lastEnd\<close>, false when \<open>lastEnd\<close> is \<open>NaN\<close>.\<close>

definition js_less :: "real \<Rightarrow> real option \<Rightarrow> bool" where
  "js_less x y = (case y of None \<Rightarrow> False | Some v \<Rightarrow> x < v)"

definition past_end :: "real \<Rightarrow> 'a event list \<Rightarrow> int" where
  "past_end audioTime vs =
     (let lastViseme = last vs; lastEnd = last_end lastViseme
      in if js_less audioTime lastEnd then int_or (viseme lastViseme) 0 else 0)"

text \<open>The sequence argument may be absent (\<open>None\<close>).\<close>

definition getVisemeAtTime :: "real \<Rightarrow> 'a event list option \<Rightarrow> js_error + int" where
  "getVisemeAtTime audioTime visemeSequence =
     (case visemeSequence of
        None \<Rightarrow> Inr 0
      | Some vs \<Rightarrow>
          if length vs = 0 then Inr 0
          else (case (if length vs < 50 then Inr (linear_scan audioTime vs)
                      else binary_search audioTime vs 0 (int (length vs) - 1)) of
                  Inl e \<Rightarrow> Inl e
                | Inr (Some c) \<Rightarrow> Inr c
                | Inr None \<Rightarrow> Inr (past_end audioTime vs)))"

section \<open>The render loop's viseme resolution (animate)\<close>

text \<open>The first \<open>for\<close> loop of \<open>animate\<close>: the end of an interval is start plus duration.\<close>

fun tick_scan :: "real \<Rightarrow> 'a event list \<Rightarrow> int option" where
  "tick_scan elapsed [] = None"
| "tick_scan elapsed (v # vs) =
     (let visemeStart = num_or (start v) 0;
          visemeDuration = num_or (duration v) 0;
          visemeEnd = visemeStart + visemeDuration
      in if elapsed \<ge> visemeStart \<and> elapsed < visemeEnd then Some (int_or (viseme v) 0)
         else tick_scan elapsed vs)"

text \<open>
  The second \<open>for\<close> loop, over the events from index 1 on, carrying \<open>closestViseme\<close> and
  \<open>minDistance\<close>.
\<close>

fun closest_loop :: "real \<Rightarrow> 'a event list \<Rightarrow> 'a event \<times> real \<Rightarrow> 'a event \<times> real" where
  "closest_loop elapsed [] (closestViseme, minDistance) = (closestViseme, minDistance)"
| "closest_loop elapsed (v # vs) (closestViseme, minDistance) =
     (let visemeStart = num_or (start v) 0;
          distance = \<bar>elapsed - visemeStart\<bar>
      in if distance < minDistance then closest_loop elapsed vs (v, distance)
         else closest_loop elapsed vs (closestViseme, minDistance))"

text \<open>
  The values of \<open>currentViseme\<close> and \<open>foundViseme\<close> after both scans; the first is
  what the tick hands to \<open>setVisemeIndex\<close>.
\<close>

definition animate_currentViseme :: "real \<Rightarrow> 'a event list \<Rightarrow> int \<times> bool" where
  "animate_currentViseme elapsed scaledVisemes =
     (case tick_scan elapsed scaledVisemes of
        Some c \<Rightarrow> (c, True)
      | None \<Rightarrow>
          (case scaledVisemes of
             [] \<Rightarrow> (0, False)
           | v0 # rest \<Rightarrow>
               (let (closestViseme, minDistance) =
                      closest_loop elapsed rest (v0, \<bar>elapsed - num_or (start v0) 0\<bar>)
                in if minDistance < 0.2 then (int_or (viseme closestViseme) 0, True)
                   else (0, False))))"

section \<open>scaleVisemes\<close>

text \<open>
  The variables of the effect's closure that \<open>scaleVisemes\<close> reads and assigns.
\<close>

record 'a lipsync_closure =
  visemeData :: "'a event list"
  estimatedDuration :: real
  durationScale :: real
  scaledVisemes :: "'a event list"

text \<open>The closure as the effect sets it up for a non-empty \<open>visemeData\<close>.\<close>

definition init_closure :: "'a event list \<Rightarrow> 'a lipsync_closure" where
  "init_closure vd =
     \<lparr>visemeData = vd,
      estimatedDuration =
        (if length vd > 0
         then num_or (start (last vd)) 0 + num_or (duration (last vd)) 0 else 0),
      durationScale = 1,
      scaledVisemes = vd\<rparr>"

definition scaleVisemes :: "real \<Rightarrow> 'a lipsync_closure \<Rightarrow> 'a lipsync_closure" where
  "scaleVisemes actualDuration c =
     (if estimatedDuration c > 0 \<and> actualDuration > 0 then
        (let ds = actualDuration / estimatedDuration c
         in c\<lparr>durationScale := ds,
              scaledVisemes :=
                map (\<lambda>v. v\<lparr>start := Some (num_or (start v) 0 * ds),
                             duration := Some (num_or (duration v) 0 * ds)\<rparr>)
                    (visemeData c)\<rparr>)
      else c\<lparr>scaledVisemes := visemeData c\<rparr>)"

section \<open>FrameInterpolator\<close>

record interpolator =
  transitionDuration :: real
  currentFrame :: int
  targetFrame :: int
  transitionStartTime :: real
  isTransitioning :: bool



text \<open>
  The result is the returned frame and the interpolator afterwards. With a transition
  duration of zero the quotient \<open>elapsed / transitionDuration\<close> is \<open>+Infinity\<close> for a positive
  \<open>elapsed\<close> (so \<open>progress\<close> is 1) and \<open>NaN\<close> or \<open>-Infinity\<close> otherwise, and then the value
  returned is no finite number: \<open>None\<close>. \<open>Math.round\<close> rounds halves up, as \<open>round\<close> does.
\<close>

definition getInterpolatedFrame :: "real \<Rightarrow> interpolator \<Rightarrow> int option \<times> interpolator" where
  "getInterpolatedFrame currentTime s =
     (if \<not> isTransitioning s then (Some (targetFrame s), s)
      else
        (let elapsed = currentTime - transitionStartTime s
         in if transitionDuration s = 0 \<and> elapsed \<le> 0 then (None, s)
            else
              (let progress = (if transitionDuration s = 0 then 1
                               else min (elapsed / transitionDuration s) 1)
               in if progress \<ge> 1 then
                    (Some (targetFrame s),
                     s\<lparr>isTransitioning := False, currentFrame := targetFrame s\<rparr>)
                  else
                    (let eased = (if progress < 0.5 then 2 * progress * progress
                                  else 1 - (- 2 * progress + 2) ^ 2 / 2);
                         interpolated =
                           round (real_of_int (currentFrame s)
                                  + real_of_int (targetFrame s - currentFrame s) * eased)
                     in (Some interpolated, s)))))"

definition reset :: "interpolator \<Rightarrow> interpolator" where
  "reset s = s\<lparr>isTransitioning := False, currentFrame := targetFrame s,
               transitionStartTime := 0\<rparr>"

section \<open>getFrameForViseme\<close>

text \<open>
  \<open>visemeFrameMap[visemeIndex] || visemeFrameMap[0] || [1]\<close>: a missing entry is falsy, an
  array is truthy whatever its length.
\<close>

definition candidateFrames_of :: "(int \<rightharpoonup> int list) \<Rightarrow> int \<Rightarrow> int list" where
  "candidateFrames_of visemeFrameMap visemeIndex =
     (case visemeFrameMap visemeIndex of
        Some fs \<Rightarrow> fs
      | None \<Rightarrow> (case visemeFrameMap 0 of Some fs \<Rightarrow> fs | None \<Rightarrow> [1]))"

text \<open>The \<open>find\<close> call: the first event whose interval holds the time and whose category matches.\<close>

definition find_visemeData :: "int \<Rightarrow> 'a event list \<Rightarrow> real \<Rightarrow> 'a event option" where
  "find_visemeData visemeIndex visemeSequence audioTime =
     List.find (\<lambda>v.
        (let vstart = num_or (start v) 0;
             vend = num_or (end_time v) (vstart + num_or (duration v) 0)
         in audioTime \<ge> vstart \<and> audioTime < vend \<and> viseme v = Some visemeIndex))
       visemeSequence"

text \<open>
  The result is \<open>None\<close> where the source returns \<open>undefined\<close> (an index outside the candidate
  list). \<open>%\<close> takes the sign of the dividend, as \<open>smod\<close> does.
\<close>

definition getFrameForViseme ::
  "int \<Rightarrow> 'a event list \<Rightarrow> real \<Rightarrow> (int \<rightharpoonup> int list) \<Rightarrow> int option" where
  "getFrameForViseme visemeIndex visemeSequence audioTime visemeFrameMap =
     (let candidateFrames = candidateFrames_of visemeFrameMap visemeIndex
      in if length candidateFrames = 0 then Some 1
         else
           (case find_visemeData visemeIndex visemeSequence audioTime of
              Some vd \<Rightarrow>
                if truthy (duration vd) then
                  (let timeInViseme = audioTime - num_or (start vd) 0;
                       cycleRate = 8;
                       frameIndex = \<lfloor>timeInViseme * cycleRate\<rfloor>
                                    smod int (length candidateFrames)
                   in js_nth candidateFrames frameIndex)
                else js_nth candidateFrames 0
            | None \<Rightarrow> js_nth candidateFrames 0))"

section \<open>The playback effect of AvatarModule\<close>

text \<open>
  The effect mutates audio elements through references, so the elements live in a store:
  the list of every element created so far, an element's identity being its index.
  \<open>audioRef\<close> and \<open>animationRef\<close> hold \<open>None\<close> for \<open>null\<close>. The callbacks the effect hands
  to \<open>setTimeout\<close> are kept in \<open>timers\<close>, each with the element it closed over.
  \<open>cleanupRegistered\<close> records whether the last run of the effect body returned its
  cleanup function (a run that leaves early returns \<open>undefined\<close>).
\<close>

record audio_element =
  paused :: bool
  currentTime :: real
  src :: string

datatype timer = StartAnimation nat | PlayAudio nat

record speech =
  audioData :: "string option"
  speechVisemes :: "viseme_event list option"

record playback =
  audios :: "audio_element list"
  audioRef :: "nat option"
  animationRef :: "nat option"
  cancelledFrames :: "nat list"
  isPlayingRef :: bool
  visemeIndex :: int
  progress :: real
  audioTime :: real
  audioDuration :: real
  isSpeaking :: bool
  timers :: "timer list"
  cleanupRegistered :: bool

text \<open>\<open>pause(); currentTime = 0; src = ''; load(); audioRef.current = null\<close>, when the ref is set.\<close>

definition stop_audio :: "playback \<Rightarrow> playback" where
  "stop_audio s =
     (case audioRef s of
        None \<Rightarrow> s
      | Some i \<Rightarrow>
          s\<lparr>audios := (audios s)[i := (audios s ! i)\<lparr>paused := True, currentTime := 0, src := []\<rparr>],
            audioRef := None\<rparr>)"

definition cancel_animation :: "playback \<Rightarrow> playback" where
  "cancel_animation s =
     (case animationRef s of
        None \<Rightarrow> s
      | Some h \<Rightarrow> s\<lparr>cancelledFrames := cancelledFrames s @ [h], animationRef := None\<rparr>)"

text \<open>
  The body of the effect, run with the current \<open>currentSpeech\<close>. A new element starts
  paused; playing it is left to the timer. Only a run that reaches the end returns the
  cleanup.
\<close>

definition playback_effect :: "speech option \<Rightarrow> playback \<Rightarrow> playback" where
  "playback_effect currentSpeech s =
     (case currentSpeech of
        None \<Rightarrow> s
      | Some sp \<Rightarrow>
          if isPlayingRef s then s
          else
            (case audioData sp of
               None \<Rightarrow> s
             | Some d \<Rightarrow>
                 if d = [] then s
                 else
                   (let s1 = stop_audio s;
                        s2 = cancel_animation s1;
                        audio = length (audios s2);
                        s3 = s2\<lparr>audios := audios s2 @
                                   [\<lparr>paused = True, currentTime = 0,
                                     src = ''data:audio/mp3;base64,'' @ d\<rparr>],
                                audioRef := Some audio\<rparr>;
                        s4 = (case speechVisemes sp of
                                None \<Rightarrow> s3
                              | Some vd \<Rightarrow>
                                  if length vd > 0
                                  then s3\<lparr>timers := timers s3 @ [StartAnimation audio]\<rparr>
                                  else s3)
                    in s4\<lparr>timers := timers s4 @ [PlayAudio audio],
                          cleanupRegistered := True\<rparr>)))"

text \<open>The timer callback \<open>if (audioRef.current === audio) audio.play()\<close>.\<close>

definition play_timer :: "nat \<Rightarrow> playback \<Rightarrow> playback" where
  "play_timer audio s =
     (if audioRef s = Some audio
      then s\<lparr>audios := (audios s)[audio := (audios s ! audio)\<lparr>paused := False\<rparr>]\<rparr>
      else s)"

text \<open>The handlers \<open>onplay\<close>, \<open>onended\<close> and \<open>onerror\<close>, and the cleanup the effect returns.\<close>

definition on_play :: "playback \<Rightarrow> playback" where
  "on_play s = s\<lparr>isPlayingRef := True, isSpeaking := True\<rparr>"

definition on_ended :: "playback \<Rightarrow> playback" where
  "on_ended s = s\<lparr>isPlayingRef := False, isSpeaking := False, visemeIndex := 0,
                  progress := 0, audioTime := 0, audioDuration := 0\<rparr>"

definition on_error :: "playback \<Rightarrow> playback" where
  "on_error s = s\<lparr>isPlayingRef := False, isSpeaking := False\<rparr>"

definition playback_cleanup :: "playback \<Rightarrow> playback" where
  "playback_cleanup s =
     (let s1 = stop_audio s; s2 = cancel_animation s1
      in s2\<lparr>audioTime := 0, audioDuration := 0, visemeIndex := 0,
            isPlayingRef := False, isSpeaking := False\<rparr>)"

text \<open>
  A change of \<open>currentSpeech\<close>, a dependency of the effect: the cleanup that the last run
  returned, if it returned one, runs first and is used up; then the body runs with the new
  value.
\<close>

definition speech_changed :: "speech option \<Rightarrow> playback \<Rightarrow> playback" where
  "speech_changed currentSpeech s =
     playback_effect currentSpeech
       (if cleanupRegistered s then (playback_cleanup s)\<lparr>cleanupRegistered := False\<rparr> else s)"

text \<open>Every element that is not paused is the one \<open>audioRef\<close> holds.\<close>

definition single_playing :: "playback \<Rightarrow> bool" where
  "single_playing s =
     (\<forall>i < length (audios s). \<not> paused (audios s ! i) \<longrightarrow> audioRef s = Some i)"

section \<open>Notions the properties are stated with\<close>

text \<open>
  The interval of an event as \<open>getVisemeAtTime\<close> and \<open>getFrameForViseme\<close> compute it, and
  as \<open>animate\<close> computes it.
\<close>

definition ev_start :: "'a event \<Rightarrow> real" where
  "ev_start v = num_or (start v) 0"

definition ev_end :: "'a event \<Rightarrow> real" where
  "ev_end v = num_or (end_time v) (ev_start v + num_or (duration v) 0)"

definition ev_cat :: "'a event \<Rightarrow> int" where
  "ev_cat v = int_or (viseme v) 0"

definition in_interval :: "real \<Rightarrow> 'a event \<Rightarrow> bool" where
  "in_interval t v = (ev_start v \<le> t \<and> t < ev_end v)"

definition in_span :: "real \<Rightarrow> 'a event \<Rightarrow> bool" where
  "in_span t v = (ev_start v \<le> t \<and> t < ev_start v + num_or (duration v) 0)"

text \<open>Starts do not decrease, and each event ends no later than the next one starts.\<close>

definition sorted_by_start :: "'a event list \<Rightarrow> bool" where
  "sorted_by_start vs = sorted (map ev_start vs)"

definition non_overlapping :: "'a event list \<Rightarrow> bool" where
  "non_overlapping vs = (\<forall>i < length vs - 1. ev_end (vs ! i) \<le> ev_start (vs ! Suc i))"

definition no_explicit_end :: "'a event list \<Rightarrow> bool" where
  "no_explicit_end vs = (\<forall>v \<in> set vs. \<not> truthy (end_time v))"


text \<open>
  The nearest-neighbour fallback in the words of the specification: the event whose start
  is closest to the time, accepted when that distance is below 0.2 seconds.
\<close>

definition nearest_event :: "real \<Rightarrow> 'a event list \<Rightarrow> 'a event" where
  "nearest_event t vs = arg_min_list (\<lambda>v. \<bar>t - ev_start v\<bar>) vs"

definition nearest_fallback :: "real \<Rightarrow> 'a event list \<Rightarrow> int" where
  "nearest_fallback t vs =
     (if vs \<noteq> [] \<and> \<bar>t - ev_start (nearest_event t vs)\<bar> < 0.2
      then ev_cat (nearest_event t vs) else 0)"

text \<open>
  The category a tick publishes according to the specification: the result of
  \<open>getVisemeAtTime\<close> when some event's interval holds the time, the fallback otherwise.
\<close>

definition tick_spec :: "real \<Rightarrow> 'a event list \<Rightarrow> js_error + int" where
  "tick_spec t vs =
     (if \<exists>v \<in> set vs. in_interval t v then getVisemeAtTime t (Some vs)
      else Inr (nearest_fallback t vs))"

text \<open>
  The candidate list in the words of the specification: an absent entry and an empty
  entry both fall back, first to category 0, then to \<open>[1]\<close>.
\<close>

definition nonempty_entry :: "int list option \<Rightarrow> int list option" where
  "nonempty_entry e = (case e of None \<Rightarrow> None | Some fs \<Rightarrow> if fs = [] then None else Some fs)"

definition candidateFrames_spec :: "(int \<rightharpoonup> int list) \<Rightarrow> int \<Rightarrow> int list" where
  "candidateFrames_spec visemeFrameMap category =
     (case nonempty_entry (visemeFrameMap category) of
        Some fs \<Rightarrow> fs
      | None \<Rightarrow> (case nonempty_entry (visemeFrameMap 0) of Some fs \<Rightarrow> fs | None \<Rightarrow> [1]))"

text \<open>An event with every missing numeric field replaced by 0.\<close>

definition fill_missing :: "'a event \<Rightarrow> 'a event" where
  "fill_missing v =
     v\<lparr>viseme := Some (int_or (viseme v) 0),
       start := Some (num_or (start v) 0),
       duration := Some (num_or (duration v) 0),
       end_time := Some (num_or (end_time v) 0)\<rparr>"

text \<open>Example data: one long event followed by 49 short ones that start inside it.\<close>

definition ev :: "int \<Rightarrow> real \<Rightarrow> real \<Rightarrow> viseme_event" where
  "ev c s d = \<lparr>viseme = Some c, start = Some s, duration = Some d, end_time = None\<rparr>"

definition overlapping50 :: "viseme_event list" where
  "overlapping50 = ev 1 0 100 # map (\<lambda>i. ev 2 (real i) (1 / 2)) [1..<50]"

text \<open>Example data: two events that follow one another without a gap.\<close>

definition two_events :: "viseme_event list" where
  "two_events = [ev 1 0 (1 / 2), ev 5 (1 / 2) (1 / 2)]"

text \<open>
  The easing curve of \<open>getInterpolatedFrame\<close> and the rounded blend it feeds, named so that
  the properties of the interpolator can be stated.
\<close>

definition ease :: "real \<Rightarrow> real" where
  "ease p = (if p < 0.5 then 2 * p * p else 1 - (- 2 * p + 2) ^ 2 / 2)"

definition blend :: "int \<Rightarrow> int \<Rightarrow> real \<Rightarrow> int" where
  "blend c F e = round (real_of_int c + real_of_int (F - c) * e)"

text \<open>
  Further example data: an event with an explicit end, an event without a start, 49 late
  events followed by the event without a start, an event whose end equals start plus
  duration, a frame map with an empty entry, states of the interpolator and of the
  playback, and 60 events of one second each that follow one another.
\<close>

definition explicit_end_event :: "viseme_event list" where
  "explicit_end_event = [\<lparr>viseme = Some 1, start = Some 0, duration = Some 1, end_time = Some 5\<rparr>]"

definition no_start :: viseme_event where
  "no_start = \<lparr>viseme = Some 3, start = None, duration = Some 1, end_time = None\<rparr>"

definition late50 :: "viseme_event list" where
  "late50 = replicate 49 (ev 1 10 1) @ [no_start]"

definition ended_events :: "viseme_event list" where
  "ended_events = [\<lparr>viseme = Some 1, start = Some 0, duration = Some 1, end_time = Some 1\<rparr>]"

definition empty_entry_map :: "int \<rightharpoonup> int list" where
  "empty_entry_map = [2 \<mapsto> [], 0 \<mapsto> [7]]"

definition overshoot_state :: interpolator where
  "overshoot_state = \<lparr>transitionDuration = 1 / 20, currentFrame = 1, targetFrame = 3,
     transitionStartTime = 1 / 10, isTransitioning = True\<rparr>"





definition playing_state :: playback where
  "playing_state =
     \<lparr>audios = [\<lparr>paused = False, currentTime = 1, src = ''data:audio/mp3;base64,AAAA''\<rparr>],
      audioRef = Some 0, animationRef = Some 7, cancelledFrames = [],
      isPlayingRef = True, visemeIndex = 3, progress = 40, audioTime = 1,
      audioDuration = 5 / 2, isSpeaking = True, timers = [], cleanupRegistered = True\<rparr>"

definition next_speech :: speech where
  "next_speech = \<lparr>audioData = Some ''BBBB'', speechVisemes = Some two_events\<rparr>"

definition idle_playback :: playback where
  "idle_playback =
     \<lparr>audios = [], audioRef = None, animationRef = None, cancelledFrames = [],
      isPlayingRef = False, visemeIndex = 0, progress = 0, audioTime = 0,
      audioDuration = 0, isSpeaking = False, timers = [], cleanupRegistered = False\<rparr>"

definition started_playback :: playback where
  "started_playback = on_play (play_timer 0 (speech_changed (Some next_speech) idle_playback))"

definition contiguous60 :: "viseme_event list" where
  "contiguous60 = map (\<lambda>i. ev (int (i mod 8)) (real i) 1) [0..<60]"

section \<open>Auxiliary facts\<close>

lemma num_or_Some_zero: "num_or (Some x) 0 = x"
  by (simp add: num_or_def)

subsection \<open>The scans as searches for the first matching event\<close>

lemma linear_scan_find:
  "linear_scan t vs = map_option ev_cat (List.find (in_interval t) vs)"
  by (induction vs) (simp_all add: in_interval_def ev_start_def ev_end_def ev_cat_def Let_def)

lemma tick_scan_find:
  "tick_scan t vs = map_option ev_cat (List.find (in_span t) vs)"
  by (induction vs) (simp_all add: in_span_def ev_start_def ev_cat_def Let_def)

lemma arg_min_list_step:
  fixes f :: "'a \<Rightarrow> real"
  shows "arg_min_list f (c # v # vs) =
     (if f v < f c then arg_min_list f (v # vs) else arg_min_list f (c # vs))"
proof (cases vs)
  case Nil
  then show ?thesis by auto
next
  case (Cons w ws)
  then show ?thesis by (auto simp: Let_def)
qed

lemma closest_loop_arg_min:
  "closest_loop t vs (c, \<bar>t - ev_start c\<bar>) =
     (arg_min_list (\<lambda>v. \<bar>t - ev_start v\<bar>) (c # vs),
      \<bar>t - ev_start (arg_min_list (\<lambda>v. \<bar>t - ev_start v\<bar>) (c # vs))\<bar>)"
proof (induction vs arbitrary: c)
  case Nil
  show ?case by simp
next
  case (Cons v vs)
  let ?d = "\<lambda>v. \<bar>t - ev_start v\<bar>"
  have step: "closest_loop t (v # vs) (c, ?d c) =
      (if ?d v < ?d c then closest_loop t vs (v, ?d v) else closest_loop t vs (c, ?d c))"
    by (simp add: Let_def ev_start_def)
  show ?case
    by (cases "?d v < ?d c")
       (simp_all only: step arg_min_list_step [of ?d c v vs] Cons.IH if_True if_False)
qed

lemma animate_char:
  "fst (animate_currentViseme t vs) =
     (case List.find (in_span t) vs of Some v \<Rightarrow> ev_cat v | None \<Rightarrow> nearest_fallback t vs)"
proof (cases "List.find (in_span t) vs")
  case (Some v)
  then show ?thesis by (simp add: animate_currentViseme_def tick_scan_find)
next
  case None
  show ?thesis
  proof (cases vs)
    case Nil
    then show ?thesis by (simp add: animate_currentViseme_def nearest_fallback_def)
  next
    case (Cons v0 rest)
    have "closest_loop t rest (v0, \<bar>t - num_or (start v0) 0\<bar>) =
            (nearest_event t vs, \<bar>t - ev_start (nearest_event t vs)\<bar>)"
      using closest_loop_arg_min [of t rest v0] Cons
      by (simp add: nearest_event_def ev_start_def)
    then show ?thesis
      using None Cons
      by (simp add: animate_currentViseme_def tick_scan_find nearest_fallback_def ev_cat_def)
  qed
qed

lemma span_is_interval:
  "\<not> truthy (end_time v) \<Longrightarrow> in_span t v = in_interval t v"
  by (auto simp: in_span_def in_interval_def ev_end_def truthy_def num_or_def
           split: option.splits)

lemma lookup_small:
  "vs \<noteq> [] \<Longrightarrow> length vs < 50 \<Longrightarrow>
   getVisemeAtTime t (Some vs) =
     Inr (case linear_scan t vs of Some c \<Rightarrow> c | None \<Rightarrow> past_end t vs)"
  by (simp add: getVisemeAtTime_def split: option.splits)

lemma lookup_of_scan:
  assumes "vs \<noteq> []" "binary_search t vs 0 (int (length vs) - 1) = Inr (linear_scan t vs)"
  shows "getVisemeAtTime t (Some vs) =
           Inr (case linear_scan t vs of Some c \<Rightarrow> c | None \<Rightarrow> past_end t vs)"
  using assms by (simp add: getVisemeAtTime_def split: option.splits)







subsection \<open>The binary search on sorted, non-overlapping sequences\<close>

lemma later_start:
  assumes "sorted_by_start vs" "non_overlapping vs" "i < j" "j < length vs"
  shows "ev_end (vs ! i) \<le> ev_start (vs ! j)"
proof -
  have a: "ev_end (vs ! i) \<le> ev_start (vs ! Suc i)"
    using assms by (simp add: non_overlapping_def)
  have "map ev_start vs ! Suc i \<le> map ev_start vs ! j"
    using assms by (intro sorted_nth_mono) (simp_all add: sorted_by_start_def)
  then have "ev_start (vs ! Suc i) \<le> ev_start (vs ! j)"
    using assms by simp
  with a show ?thesis by simp
qed

lemma start_mono:
  assumes "sorted_by_start vs" "i \<le> j" "j < length vs"
  shows "ev_start (vs ! i) \<le> ev_start (vs ! j)"
proof -
  have "map ev_start vs ! i \<le> map ev_start vs ! j"
    using assms by (intro sorted_nth_mono) (simp_all add: sorted_by_start_def)
  then show ?thesis using assms by simp
qed

lemma interval_unique:
  assumes "sorted_by_start vs" "non_overlapping vs" "i < length vs" "j < length vs"
    "in_interval t (vs ! i)" "in_interval t (vs ! j)"
  shows "i = j"
proof (rule ccontr)
  assume "i \<noteq> j"
  then consider "i < j" | "j < i" by linarith
  then show False
  proof cases
    case 1
    then show ?thesis using later_start [OF assms(1,2) 1 assms(4)] assms(5,6)
      by (simp add: in_interval_def)
  next
    case 2
    then show ?thesis using later_start [OF assms(1,2) 2 assms(3)] assms(5,6)
      by (simp add: in_interval_def)
  qed
qed

lemma binary_search_step:
  assumes "left \<le> right" "0 \<le> left" "right < int (length vs)"
  shows "binary_search t vs left right =
     (let v = vs ! nat ((left + right) div 2) in
      if in_interval t v then Inr (Some (ev_cat v))
      else if t < ev_start v then binary_search t vs left ((left + right) div 2 - 1)
      else binary_search t vs ((left + right) div 2 + 1) right)"
proof -
  have "0 \<le> (left + right) div 2" "(left + right) div 2 < int (length vs)"
    using assms by auto
  then have "js_nth vs ((left + right) div 2) = Some (vs ! nat ((left + right) div 2))"
    by (simp add: js_nth_def)
  then show ?thesis
    using assms(1)
    by (subst binary_search.simps)
       (simp add: Let_def in_interval_def ev_start_def ev_end_def ev_cat_def)
qed

lemma binary_search_result:
  "0 \<le> left \<Longrightarrow> right < int (length vs) \<Longrightarrow>
   (\<exists>k. left \<le> int k \<and> int k \<le> right \<and> in_interval t (vs ! k)
        \<and> binary_search t vs left right = Inr (Some (ev_cat (vs ! k))))
   \<or> binary_search t vs left right = Inr None"
proof (induction "nat (right - left + 1)" arbitrary: left right rule: less_induct)
  case less
  show ?case
  proof (cases "left \<le> right")
    case False
    then show ?thesis by (subst (1 2) binary_search.simps) simp
  next
    case True
    define mid where "mid = (left + right) div 2"
    have m: "left \<le> mid" "mid \<le> right" using True by (auto simp: mid_def)
    note step = binary_search_step [OF True less.prems, of t, folded mid_def]
    show ?thesis
    proof (cases "in_interval t (vs ! nat mid)")
      case True
      then show ?thesis using step m less.prems 
        by (intro disjI1 exI [of _ "nat mid"]) (simp add: Let_def)
    next
      case nin: False
      show ?thesis
      proof (cases "t < ev_start (vs ! nat mid)")
        case True
        have "nat (mid - 1 - left + 1) < nat (right - left + 1)" using m by simp
        from less.hyps [OF this less.prems(1)] m less.prems
        have "(\<exists>k. left \<le> int k \<and> int k \<le> mid - 1 \<and> in_interval t (vs ! k)
                 \<and> binary_search t vs left (mid - 1) = Inr (Some (ev_cat (vs ! k))))
              \<or> binary_search t vs left (mid - 1) = Inr None" by simp
        then show ?thesis
        proof (elim disjE exE conjE)
          fix k
          assume "left \<le> int k" "int k \<le> mid - 1" "in_interval t (vs ! k)"
            "binary_search t vs left (mid - 1) = Inr (Some (ev_cat (vs ! k)))"
          then show ?thesis using step nin True m
            by (intro disjI1 exI [of _ k]) (simp add: Let_def)
        next
          assume "binary_search t vs left (mid - 1) = Inr None"
          then show ?thesis using step nin True by (simp add: Let_def)
        qed
      next
        case False
        have "nat (right - (mid + 1) + 1) < nat (right - left + 1)" using m by simp
        from less.hyps [OF this _ less.prems(2)] m less.prems
        have "(\<exists>k. mid + 1 \<le> int k \<and> int k \<le> right \<and> in_interval t (vs ! k)
                 \<and> binary_search t vs (mid + 1) right = Inr (Some (ev_cat (vs ! k))))
              \<or> binary_search t vs (mid + 1) right = Inr None" by simp
        then show ?thesis
        proof (elim disjE exE conjE)
          fix k
          assume "mid + 1 \<le> int k" "int k \<le> right" "in_interval t (vs ! k)"
            "binary_search t vs (mid + 1) right = Inr (Some (ev_cat (vs ! k)))"
          then show ?thesis using step nin False m
            by (intro disjI1 exI [of _ k]) (simp add: Let_def)
        next
          assume "binary_search t vs (mid + 1) right = Inr None"
          then show ?thesis using step nin False by (simp add: Let_def)
        qed
      qed
    qed
  qed
qed

lemma binary_search_finds:
  assumes S: "sorted_by_start vs" and N: "non_overlapping vs"
    and K: "k < length vs" "in_interval t (vs ! k)"
  shows "0 \<le> left \<Longrightarrow> right < int (length vs) \<Longrightarrow> left \<le> int k \<Longrightarrow> int k \<le> right \<Longrightarrow>
         binary_search t vs left right = Inr (Some (ev_cat (vs ! k)))"
proof (induction "nat (right - left + 1)" arbitrary: left right rule: less_induct)
  case less
  have lr: "left \<le> right" using less.prems by simp
  define mid where "mid = (left + right) div 2"
  have m: "left \<le> mid" "mid \<le> right" using lr by (auto simp: mid_def)
  have mlen: "nat mid < length vs" using m less.prems by simp
  note step = binary_search_step [OF lr less.prems(1,2), of t, folded mid_def]
  show ?case
  proof (cases "in_interval t (vs ! nat mid)")
    case True
    then have "nat mid = k" using interval_unique [OF S N mlen K(1) True K(2)] by simp
    then show ?thesis using step True by (simp add: Let_def)
  next
    case nin: False
    show ?thesis
    proof (cases "t < ev_start (vs ! nat mid)")
      case True
      have "k < nat mid"
      proof (rule ccontr)
        assume "\<not> k < nat mid"
        then have "ev_start (vs ! nat mid) \<le> ev_start (vs ! k)"
          using start_mono [OF S _ K(1), of "nat mid"] by simp
        then show False using True K(2) by (simp add: in_interval_def)
      qed
      then have k: "int k \<le> mid - 1" by simp
      have "nat (mid - 1 - left + 1) < nat (right - left + 1)" using m by simp
      from less.hyps [OF this less.prems(1) _ less.prems(3) k] m less.prems
      have "binary_search t vs left (mid - 1) = Inr (Some (ev_cat (vs ! k)))" by simp
      then show ?thesis using step nin True by (simp add: Let_def)
    next
      case False
      have "nat mid < k"
      proof (rule ccontr)
        assume "\<not> nat mid < k"
        then consider "k = nat mid" | "k < nat mid" by linarith
        then show False
        proof cases
          case 1
          then show ?thesis using nin K(2) by simp
        next
          case 2
          from later_start [OF S N 2 mlen] False K(2) show ?thesis
            by (simp add: in_interval_def)
        qed
      qed
      then have k: "mid + 1 \<le> int k" using m less.prems by simp
      have "nat (right - (mid + 1) + 1) < nat (right - left + 1)" using m by simp
      from less.hyps [OF this _ less.prems(2) k less.prems(4)] m less.prems
      have "binary_search t vs (mid + 1) right = Inr (Some (ev_cat (vs ! k)))" by simp
      then show ?thesis using step nin False by (simp add: Let_def)
    qed
  qed
qed

lemma strategies_agree:
  assumes "vs \<noteq> []" "sorted_by_start vs" "non_overlapping vs"
  shows "binary_search t vs 0 (int (length vs) - 1) = Inr (linear_scan t vs)"
proof (cases "\<exists>k < length vs. in_interval t (vs ! k)")
  case True
  then obtain k where k: "k < length vs" "in_interval t (vs ! k)" by blast
  have b: "binary_search t vs 0 (int (length vs) - 1) = Inr (Some (ev_cat (vs ! k)))"
    using binary_search_finds [OF assms(2,3) k, of 0 "int (length vs) - 1"] k(1) by simp
  obtain x where x: "List.find (in_interval t) vs = Some x"
    using k by (cases "List.find (in_interval t) vs") (auto simp: find_None_iff)
  then obtain i where i: "i < length vs" "in_interval t (vs ! i)" "x = vs ! i"
    by (auto simp: find_Some_iff)
  have "i = k" using interval_unique [OF assms(2,3) i(1) k(1) i(2) k(2)] .
  then show ?thesis using b x i by (simp add: linear_scan_find)
next
  case False
  have "List.find (in_interval t) vs = None"
    using False by (auto simp: find_None_iff in_set_conv_nth)
  moreover have "binary_search t vs 0 (int (length vs) - 1) = Inr None"
    using binary_search_result [of 0 "int (length vs) - 1" vs t] False by auto
  ultimately show ?thesis by (simp add: linear_scan_find)
qed

subsection \<open>The example sequences\<close>

lemma overlapping50_nth:
  "0 < i \<Longrightarrow> i < 50 \<Longrightarrow> overlapping50 ! i = ev 2 (real i) (1 / 2)"
  by (cases i) (simp_all add: overlapping50_def)

lemma overlapping50_search:
  "binary_search (107 / 10) overlapping50 0 49 = Inr None"
  by (simp add: binary_search.simps js_nth_def overlapping50_nth overlapping50_def [THEN arg_cong, of length] ev_def num_or_def)

lemma overlapping50_length: "length overlapping50 = 50"
  by (simp add: overlapping50_def)

lemma overlapping50_ne: "overlapping50 \<noteq> []"
  by (simp add: overlapping50_def)

lemma overlapping50_last: "last overlapping50 = ev 2 49 (1 / 2)"
  using overlapping50_nth [of 49]
  by (simp add: last_conv_nth overlapping50_ne overlapping50_length)

lemma overlapping50_sorted: "sorted_by_start overlapping50"
proof -
  have "sorted (map real [1..<50])"
    by (simp add: sorted_map sorted_wrt_iff_nth_less)
  then show ?thesis
    by (simp add: overlapping50_def sorted_by_start_def ev_def ev_start_def num_or_Some_zero
          comp_def)
qed

lemma no_nat_between: "\<not> (real i \<le> 107 / 10 \<and> 107 / 10 < real i + 1 / 2)"
proof -
  have "i \<le> 10 \<or> 11 \<le> i" by arith
  then show ?thesis
  proof
    assume "i \<le> 10"
    then have "real i \<le> 10" by simp
    then show ?thesis by simp
  next
    assume "11 \<le> i"
    then have "11 \<le> real i" by simp
    then show ?thesis by simp
  qed
qed

lemma overlapping50_filter: "filter (in_interval (107 / 10)) overlapping50 = [ev 1 0 100]"
proof -
  have "\<not> in_interval (107 / 10) (ev 2 (real i) (1 / 2))" for i
    using no_nat_between [of i]
    by (simp add: in_interval_def ev_def ev_start_def ev_end_def num_or_def)
  then have "filter (in_interval (107 / 10)) (map (\<lambda>i. ev 2 (real i) (1 / 2)) [1..<50]) = []"
    by (simp add: filter_empty_conv)
  moreover have "in_interval (107 / 10) (ev 1 0 100)"
    by (simp add: in_interval_def ev_def ev_start_def ev_end_def num_or_def)
  ultimately show ?thesis by (simp add: overlapping50_def)
qed

lemma overlapping50_linear: "linear_scan (107 / 10) overlapping50 = Some 1"
  by (simp add: overlapping50_def ev_def num_or_def int_or_def)

lemma overlapping50_past_end: "past_end (107 / 10) overlapping50 = 2"
  by (simp add: past_end_def overlapping50_last
        last_end_def truthy_def js_less_def ev_def num_or_def int_or_def)

lemma overlapping50_lookup: "getVisemeAtTime (107 / 10) (Some overlapping50) = Inr 2"
  by (simp add: getVisemeAtTime_def overlapping50_length overlapping50_search
        overlapping50_past_end)

lemma late50_length: "length late50 = 50"
  by (simp add: late50_def)

lemma late50_nth: "i < 49 \<Longrightarrow> late50 ! i = ev 1 10 1"
  by (simp add: late50_def nth_append)

lemma late50_last: "last late50 = no_start"
  by (simp add: late50_def)

lemma late50_filled_last: "last (map fill_missing late50) = fill_missing no_start"
  by (simp add: late50_def)

lemma fill_missing_ev:
  "fill_missing (ev 1 10 1) =
     \<lparr>viseme = Some 1, start = Some 10, duration = Some 1, end_time = Some 0\<rparr>"
  by (simp add: fill_missing_def ev_def num_or_def int_or_def)

lemma fill_missing_no_start:
  "fill_missing no_start =
     \<lparr>viseme = Some 3, start = Some 0, duration = Some 1, end_time = Some 0\<rparr>"
  by (simp add: fill_missing_def no_start_def num_or_def int_or_def)

lemma late50_search: "binary_search (1 / 2) late50 0 49 = Inr None"
  by (simp add: binary_search.simps js_nth_def late50_nth late50_length ev_def num_or_def)

lemma late50_filled_search: "binary_search (1 / 2) (map fill_missing late50) 0 49 = Inr None"
  by (simp add: binary_search.simps js_nth_def late50_nth late50_length fill_missing_ev
        num_or_def)

lemma contiguous60_length: "length contiguous60 = 60"
  by (simp add: contiguous60_def)

lemma contiguous60_nth: "i < 60 \<Longrightarrow> contiguous60 ! i = ev (int (i mod 8)) (real i) 1"
  by (simp add: contiguous60_def)

lemma contiguous60_sorted: "sorted_by_start contiguous60"
  by (simp add: sorted_by_start_def sorted_iff_nth_mono contiguous60_length contiguous60_nth
        ev_def ev_start_def num_or_Some_zero)

lemma contiguous60_disjoint: "non_overlapping contiguous60"
  by (simp add: non_overlapping_def contiguous60_length contiguous60_nth
        ev_def ev_start_def ev_end_def num_or_def)

subsection \<open>Filling in missing fields\<close>

lemma fill_missing_start: "ev_start (fill_missing v) = ev_start v"
  by (simp add: fill_missing_def ev_start_def num_or_def split: option.splits)

lemma fill_missing_end: "ev_end (fill_missing v) = ev_end v"
  by (simp add: fill_missing_def ev_end_def ev_start_def num_or_def split: option.splits)

lemma fill_missing_cat: "ev_cat (fill_missing v) = ev_cat v"
  by (simp add: fill_missing_def ev_cat_def int_or_def split: option.splits)

lemma fill_missing_interval: "in_interval t (fill_missing v) = in_interval t v"
  by (simp add: in_interval_def fill_missing_start fill_missing_end)

lemma linear_scan_fill: "linear_scan t (map fill_missing vs) = linear_scan t vs"
  by (induction vs) (simp_all add: linear_scan_find fill_missing_interval fill_missing_cat)

lemma binary_search_fill:
  "0 \<le> left \<Longrightarrow> right < int (length vs) \<Longrightarrow>
   binary_search t (map fill_missing vs) left right = binary_search t vs left right"
proof (induction "nat (right - left + 1)" arbitrary: left right rule: less_induct)
  case less
  show ?case
  proof (cases "left \<le> right")
    case False
    then show ?thesis by (subst (1 2) binary_search.simps) simp
  next
    case True
    define mid where "mid = (left + right) div 2"
    have m: "left \<le> mid" "mid \<le> right" using True by (auto simp: mid_def)
    have len: "right < int (length (map fill_missing vs))" using less.prems by simp
    have n: "map fill_missing vs ! nat mid = fill_missing (vs ! nat mid)"
      using m less.prems by simp
    note a = binary_search_step [OF True less.prems(1) len, of t, folded mid_def]
    note b = binary_search_step [OF True less.prems, of t, folded mid_def]
    have l: "binary_search t (map fill_missing vs) left (mid - 1)
               = binary_search t vs left (mid - 1)"
      using less.hyps [of "mid - 1" left] m less.prems by simp
    have r: "binary_search t (map fill_missing vs) (mid + 1) right
               = binary_search t vs (mid + 1) right"
      using less.hyps [of right "mid + 1"] m less.prems by simp
    show ?thesis
      by (simp add: a b n l r Let_def fill_missing_interval fill_missing_cat fill_missing_start)
  qed
qed

lemma past_end_fill:
  assumes "vs \<noteq> []" "start (last vs) \<noteq> None \<or> truthy (end_time (last vs))"
  shows "past_end t (map fill_missing vs) = past_end t vs"
proof -
  have "last_end (fill_missing (last vs)) = last_end (last vs)"
    using assms(2)
    by (auto simp: last_end_def fill_missing_def truthy_def num_or_def split: option.splits)
  moreover have "int_or (viseme (fill_missing (last vs))) 0 = int_or (viseme (last vs)) 0"
    using fill_missing_cat [of "last vs"] by (simp add: ev_cat_def)
  ultimately show ?thesis using assms(1) by (simp add: past_end_def last_map Let_def)
qed

subsection \<open>Easing and blending\<close>

lemma ease_zero: "ease 0 = 0"
  by (simp add: ease_def)

lemma ease_one: "ease 1 = 1"
  by (simp add: ease_def)

lemma ease_mono:
  assumes "0 \<le> p" "p \<le> q" "q \<le> 1"
  shows "ease p \<le> ease q"
proof -
  consider "q < 1 / 2" | "1 / 2 \<le> p" | "p < 1 / 2" "1 / 2 \<le> q" by linarith
  then show ?thesis
  proof cases
    case 1
    have "p * p \<le> q * q" using assms by (intro mult_mono) simp_all
    then show ?thesis using 1 assms by (simp add: ease_def)
  next
    case 2
    have "(2 - 2 * q) ^ 2 \<le> (2 - 2 * p) ^ 2" using assms by (intro power_mono) simp_all
    then show ?thesis using 2 assms by (simp add: ease_def)
  next
    case 3
    have "p * p \<le> (1 / 2) * (1 / 2)" using assms 3 by (intro mult_mono) simp_all
    moreover have "(2 - 2 * q) ^ 2 \<le> 1" using assms 3 by (intro power_le_one) simp_all
    ultimately show ?thesis using 3 by (simp add: ease_def)
  qed
qed

lemma ease_range:
  assumes "0 \<le> p" "p \<le> 1"
  shows "0 \<le> ease p" "ease p \<le> 1"
  using ease_mono [of 0 p] ease_mono [of p 1] assms by (simp_all add: ease_zero ease_one)

lemma blend_mono_up:
  assumes "c \<le> F" "e1 \<le> e2"
  shows "blend c F e1 \<le> blend c F e2"
proof -
  have "real_of_int (F - c) * e1 \<le> real_of_int (F - c) * e2"
    using assms by (intro mult_left_mono) simp_all
  then show ?thesis unfolding blend_def by (intro round_mono) simp
qed

lemma blend_mono_down:
  assumes "F \<le> c" "e1 \<le> e2"
  shows "blend c F e2 \<le> blend c F e1"
proof -
  have "real_of_int (F - c) * e2 \<le> real_of_int (F - c) * e1"
    using assms by (intro mult_left_mono_neg) simp_all
  then show ?thesis unfolding blend_def by (intro round_mono) simp
qed

lemma blend_zero: "blend c F 0 = c"
  by (simp add: blend_def)

lemma blend_one: "blend c F 1 = F"
  by (simp add: blend_def)

lemma blend_between:
  assumes "0 \<le> e" "e \<le> 1"
  shows "min c F \<le> blend c F e" "blend c F e \<le> max c F"
proof -
  show "min c F \<le> blend c F e"
  proof (cases "c \<le> F")
    case True
    then show ?thesis using blend_mono_up [OF True assms(1)] by (simp add: blend_zero)
  next
    case False
    then have "F \<le> c" by simp
    from blend_mono_down [OF this assms(2)] False show ?thesis by (simp add: blend_one)
  qed
  show "blend c F e \<le> max c F"
  proof (cases "c \<le> F")
    case True
    then show ?thesis using blend_mono_up [OF True assms(2)] by (simp add: blend_one)
  next
    case False
    then have "F \<le> c" by simp
    from blend_mono_down [OF this assms(1)] False show ?thesis by (simp add: blend_zero)
  qed
qed



subsection \<open>The playback effect\<close>

lemma stop_audio_all_paused:
  assumes "single_playing s" "j < length (audios (stop_audio s))"
  shows "paused (audios (stop_audio s) ! j)"
proof (cases "audioRef s")
  case None
  then show ?thesis using assms by (auto simp: stop_audio_def single_playing_def)
next
  case (Some i)
  then show ?thesis using assms
    by (cases "j = i") (auto simp: stop_audio_def single_playing_def)
qed

lemma cancel_animation_audios:
  "audios (cancel_animation s) = audios s" "audioRef (cancel_animation s) = audioRef s"
  by (simp_all add: cancel_animation_def split: option.splits)

lemma all_paused_single: "(\<And>j. j < length (audios s) \<Longrightarrow> paused (audios s ! j)) \<Longrightarrow> single_playing s"
  by (simp add: single_playing_def)

lemma playback_effect_single:
  assumes "single_playing s"
  shows "single_playing (playback_effect cs s)"
proof (cases "playback_effect cs s = s")
  case True
  then show ?thesis using assms by simp
next
  case False
  then obtain sp d where cs: "cs = Some sp" "\<not> isPlayingRef s" "audioData sp = Some d" "d \<noteq> []"
    by (auto simp: playback_effect_def split: option.splits if_splits)
  define s2 where "s2 = cancel_animation (stop_audio s)"
  have p: "paused (audios s2 ! j)" if "j < length (audios s2)" for j
    using that stop_audio_all_paused [OF assms, of j] by (simp add: s2_def cancel_animation_audios)
  have a: "audios (playback_effect cs s) = audios s2 @
             [\<lparr>paused = True, currentTime = 0, src = ''data:audio/mp3;base64,'' @ d\<rparr>]"
    using cs by (simp add: playback_effect_def s2_def Let_def split: option.splits)
  show ?thesis
  proof (rule all_paused_single)
    fix j assume "j < length (audios (playback_effect cs s))"
    then show "paused (audios (playback_effect cs s) ! j)"
      using p [of j] by (cases "j < length (audios s2)") (simp_all add: a nth_append)
  qed
qed

lemma play_timer_single:
  assumes "single_playing s"
  shows "single_playing (play_timer a s)"
  using assms
  by (auto simp: single_playing_def play_timer_def nth_list_update split: if_splits)

lemma effect_body_guard: "isPlayingRef s \<Longrightarrow> playback_effect (Some sp) s = s"
  by (simp add: playback_effect_def)

lemma playback_cleanup_single:
  assumes "single_playing s"
  shows "single_playing ((playback_cleanup s)\<lparr>cleanupRegistered := False\<rparr>)"
proof -
  have "paused (audios (playback_cleanup s) ! j)" if "j < length (audios (playback_cleanup s))" for j
    using that stop_audio_all_paused [OF assms, of j]
    by (simp add: playback_cleanup_def Let_def cancel_animation_audios)
  then show ?thesis by (simp add: single_playing_def)
qed

lemma speech_changed_single:
  assumes "single_playing s"
  shows "single_playing (speech_changed cs s)"
  using assms playback_cleanup_single [OF assms]
  by (simp add: speech_changed_def playback_effect_single)

lemma single_playing_unique:
  assumes "single_playing s" "i < length (audios s)" "j < length (audios s)"
    "\<not> paused (audios s ! i)" "\<not> paused (audios s ! j)"
  shows "i = j"
proof -
  have "audioRef s = Some i \<and> audioRef s = Some j"
    using assms unfolding single_playing_def by blast
  then show ?thesis by (metis option.inject)
qed

lemma started_playback_fields:
  "started_playback =
     \<lparr>audios = [\<lparr>paused = False, currentTime = 0, src = ''data:audio/mp3;base64,BBBB''\<rparr>],
      audioRef = Some 0, animationRef = None, cancelledFrames = [],
      isPlayingRef = True, visemeIndex = 0, progress = 0, audioTime = 0,
      audioDuration = 0, isSpeaking = True, timers = [StartAnimation 0, PlayAudio 0],
      cleanupRegistered = True\<rparr>"
  by (simp add: started_playback_def idle_playback_def next_speech_def two_events_def
        speech_changed_def playback_effect_def stop_audio_def cancel_animation_def
        play_timer_def on_play_def Let_def)

section \<open>The viseme a tick resolves\<close>

text \<open>
  C1 (as amended). On each tick, for every scaled sequence and every playback time, the
  category the loop resolves and hands to \<open>setVisemeIndex\<close> is that of the first event, in
  sequence order, with start \<open>\<le>\<close> time \<open><\<close> start + duration (missing fields read as 0, an
  explicit end field ignored); when there is no such event it is the category of the event
  whose start is closest to the time (the earliest of several equally close ones) if that
  distance is below 0.2, and 0 otherwise. This is the result of \<open>getVisemeAtTime\<close> extended
  with the nearest-neighbour fallback whenever no event carries a truthy end field and the
  sequence has fewer than 50 events or is sorted by start with non-overlapping intervals.
\<close>

theorem animate_resolution:
  "fst (animate_currentViseme t vs) =
     (case List.find (in_span t) vs of Some v \<Rightarrow> ev_cat v | None \<Rightarrow> nearest_fallback t vs)
   \<and> (no_explicit_end vs \<and> (length vs < 50 \<or> sorted_by_start vs \<and> non_overlapping vs)
        \<longrightarrow> Inr (fst (animate_currentViseme t vs)) = tick_spec t vs)"
proof (intro conjI impI)
  show "fst (animate_currentViseme t vs) =
     (case List.find (in_span t) vs of Some v \<Rightarrow> ev_cat v | None \<Rightarrow> nearest_fallback t vs)"
    by (rule animate_char)
next
  assume a: "no_explicit_end vs \<and> (length vs < 50 \<or> sorted_by_start vs \<and> non_overlapping vs)"
  then have "\<And>v. v \<in> set vs \<Longrightarrow> in_span t v = in_interval t v"
    by (simp add: no_explicit_end_def span_is_interval)
  then have f: "List.find (in_span t) vs = List.find (in_interval t) vs"
    by (intro find_cong) simp_all
  show "Inr (fst (animate_currentViseme t vs)) = tick_spec t vs"
  proof (cases "List.find (in_interval t) vs")
    case None
    then have "\<not> (\<exists>v \<in> set vs. in_interval t v)" by (simp add: find_None_iff)
    then show ?thesis using None f by (simp add: tick_spec_def animate_char)
  next
    case (Some x)
    then have ex: "\<exists>v \<in> set vs. in_interval t v" and ne: "vs \<noteq> []"
      by (auto simp: find_Some_iff)
    have "getVisemeAtTime t (Some vs) =
            Inr (case linear_scan t vs of Some c \<Rightarrow> c | None \<Rightarrow> past_end t vs)"
      using a ne lookup_small [of vs t] lookup_of_scan [OF ne strategies_agree [OF ne], of t]
      by blast
    then show ?thesis using Some f ex by (simp add: tick_spec_def animate_char linear_scan_find)
  qed
qed

theorem animate_resolution_witness:
  "no_explicit_end two_events \<and> length two_events < 50
   \<and> fst (animate_currentViseme (3 / 5) two_events) = 5
   \<and> tick_spec (3 / 5) two_events = Inr 5"
proof -
  have h: "no_explicit_end two_events" "length two_events < 50"
    by (simp_all add: two_events_def no_explicit_end_def ev_def truthy_def)
  have v: "fst (animate_currentViseme (3 / 5) two_events) = 5"
    by (simp add: two_events_def animate_currentViseme_def ev_def num_or_def int_or_def)
  from animate_resolution [of "3 / 5" two_events] h v show ?thesis by simp
qed

text \<open>
  Without those conditions the two differ. On the 50 overlapping events the loop resolves
  category 1 at 10.7 where \<open>getVisemeAtTime\<close> answers 2; on one event with start 0,
  duration 1 and end 5 the loop resolves 0 at time 2 where \<open>getVisemeAtTime\<close> answers 1.
\<close>

theorem animate_counterexample:
  "(\<exists>v \<in> set overlapping50. in_interval (107 / 10) v)
   \<and> fst (animate_currentViseme (107 / 10) overlapping50) = 1
   \<and> getVisemeAtTime (107 / 10) (Some overlapping50) = Inr 2
   \<and> tick_spec (107 / 10) overlapping50 = Inr 2
   \<and> fst (animate_currentViseme 2 explicit_end_event) = 0
   \<and> tick_spec 2 explicit_end_event = Inr 1"
proof -
  have i: "in_interval (107 / 10) (ev 1 0 100)"
    by (simp add: in_interval_def ev_def ev_start_def ev_end_def num_or_def)
  then have e: "\<exists>v \<in> set overlapping50. in_interval (107 / 10) v"
    by (simp add: overlapping50_def)
  have "in_span (107 / 10) (ev 1 0 100)"
    by (simp add: in_span_def ev_def ev_start_def num_or_def)
  then have a: "fst (animate_currentViseme (107 / 10) overlapping50) = 1"
    by (simp add: animate_char overlapping50_def) (simp add: ev_cat_def ev_def int_or_def)
  have t: "tick_spec (107 / 10) overlapping50 = Inr 2"
    using e by (simp add: tick_spec_def overlapping50_lookup)
  have x: "fst (animate_currentViseme 2 explicit_end_event) = 0"
    by (simp add: explicit_end_event_def animate_currentViseme_def num_or_def)
  have y: "tick_spec 2 explicit_end_event = Inr 1"
    by (simp add: explicit_end_event_def tick_spec_def in_interval_def ev_start_def ev_end_def
          getVisemeAtTime_def num_or_def int_or_def)
  from e a t x y overlapping50_lookup show ?thesis by simp
qed

section \<open>VisemeLookup on sorted sequences\<close>

text \<open>
  C2 (as amended). For every non-empty sequence whose starts do not decrease and in which
  each event's interval ends no later than the next event starts, and for every query
  time: when an event's interval holds the time, that event is the only one that does and
  \<open>getVisemeAtTime\<close> returns its category; and the binary search over the whole sequence
  returns what the linear scan returns, so that the two strategies give the same category.
\<close>

theorem lookup_sorted_disjoint:
  assumes "vs \<noteq> []" "sorted_by_start vs" "non_overlapping vs"
  shows "(\<forall>k < length vs. in_interval t (vs ! k) \<longrightarrow>
            getVisemeAtTime t (Some vs) = Inr (ev_cat (vs ! k))
            \<and> (\<forall>j < length vs. in_interval t (vs ! j) \<longrightarrow> j = k))
         \<and> binary_search t vs 0 (int (length vs) - 1) = Inr (linear_scan t vs)"
proof (intro conjI allI impI)
  show agree: "binary_search t vs 0 (int (length vs) - 1) = Inr (linear_scan t vs)"
    by (rule strategies_agree [OF assms])
  fix k assume k: "k < length vs" "in_interval t (vs ! k)"
  have "binary_search t vs 0 (int (length vs) - 1) = Inr (Some (ev_cat (vs ! k)))"
    using binary_search_finds [OF assms(2,3) k, of 0 "int (length vs) - 1"] k(1) by simp
  with agree have "linear_scan t vs = Some (ev_cat (vs ! k))" by simp
  then show "getVisemeAtTime t (Some vs) = Inr (ev_cat (vs ! k))"
    using lookup_of_scan [OF assms(1) agree] by simp
  fix j assume "j < length vs" "in_interval t (vs ! j)"
  then show "j = k" using interval_unique [OF assms(2,3) _ k(1) _ k(2)] by simp
qed

theorem lookup_sorted_disjoint_witness:
  "contiguous60 \<noteq> [] \<and> sorted_by_start contiguous60 \<and> non_overlapping contiguous60
   \<and> in_interval (83 / 2) (contiguous60 ! 41)
   \<and> getVisemeAtTime (83 / 2) (Some contiguous60) = Inr 1
   \<and> binary_search (83 / 2) contiguous60 0 59 = Inr (linear_scan (83 / 2) contiguous60)"
proof -
  have h: "contiguous60 \<noteq> []" "sorted_by_start contiguous60" "non_overlapping contiguous60"
    using contiguous60_length contiguous60_sorted contiguous60_disjoint by auto
  have l: "41 < length contiguous60" by (simp add: contiguous60_length)
  have i: "in_interval (83 / 2) (contiguous60 ! 41)"
    by (simp add: contiguous60_nth in_interval_def ev_def ev_start_def ev_end_def num_or_def)
  note T = lookup_sorted_disjoint [OF h, of "83 / 2"]
  from T l i have "getVisemeAtTime (83 / 2) (Some contiguous60) = Inr (ev_cat (contiguous60 ! 41))"
    by blast
  moreover have "ev_cat (contiguous60 ! 41) = 1"
    by (simp add: contiguous60_nth ev_cat_def ev_def int_or_def)
  moreover from T have "binary_search (83 / 2) contiguous60 0 (int (length contiguous60) - 1)
      = Inr (linear_scan (83 / 2) contiguous60)" by blast
  ultimately show ?thesis using h i by (simp add: contiguous60_length)
qed

text \<open>
  With sorted starts alone the two strategies part: in the 50 events below only the first
  interval holds 10.7, the linear scan finds it, the binary search misses it and the lookup
  answers with the category of the last event.
\<close>

theorem lookup_counterexample:
  "overlapping50 \<noteq> [] \<and> sorted_by_start overlapping50
   \<and> ev_start (hd overlapping50) \<le> 107 / 10 \<and> 107 / 10 < ev_end (last overlapping50)
   \<and> filter (in_interval (107 / 10)) overlapping50 = [ev 1 0 100]
   \<and> getVisemeAtTime (107 / 10) (Some overlapping50) = Inr 2
   \<and> linear_scan (107 / 10) overlapping50 = Some 1
   \<and> binary_search (107 / 10) overlapping50 0 (int (length overlapping50) - 1) = Inr None"
proof -
  have "overlapping50 \<noteq> []" by (simp add: overlapping50_def)
  moreover have "ev_start (hd overlapping50) \<le> 107 / 10"
    by (simp add: overlapping50_def ev_def ev_start_def num_or_def)
  moreover have "107 / 10 < ev_end (last overlapping50)"
    by (simp add: overlapping50_last ev_def ev_start_def ev_end_def num_or_def)
  moreover have "getVisemeAtTime (107 / 10) (Some overlapping50) = Inr 2"
    by (simp add: getVisemeAtTime_def overlapping50_length overlapping50_search
          overlapping50_past_end)
  ultimately show ?thesis
    using overlapping50_sorted overlapping50_filter overlapping50_linear overlapping50_search
    by (simp add: overlapping50_length)
qed

section \<open>Rescaling\<close>

text \<open>
  C3. \<open>scaleVisemes\<close> leaves the input sequence as the scaled sequence when
  \<open>estimatedDuration \<le> 0\<close> or \<open>actualDuration \<le> 0\<close>; otherwise the scaled sequence has the
  same length and each event's start and duration are the input values (a missing one read
  as 0) times \<open>actualDuration / estimatedDuration\<close>; in both cases \<open>visemeData\<close>, the
  original sequence, is what it was.
\<close>

theorem scaleVisemes_scales:
  "(estimatedDuration c \<le> 0 \<or> actualDuration \<le> 0 \<longrightarrow>
      scaledVisemes (scaleVisemes actualDuration c) = visemeData c)
   \<and> (estimatedDuration c > 0 \<and> actualDuration > 0 \<longrightarrow>
        length (scaledVisemes (scaleVisemes actualDuration c)) = length (visemeData c)
        \<and> (\<forall>i < length (visemeData c).
              start (scaledVisemes (scaleVisemes actualDuration c) ! i)
                = Some (num_or (start (visemeData c ! i)) 0
                        * (actualDuration / estimatedDuration c))
              \<and> duration (scaledVisemes (scaleVisemes actualDuration c) ! i)
                = Some (num_or (duration (visemeData c ! i)) 0
                        * (actualDuration / estimatedDuration c))))
   \<and> visemeData (scaleVisemes actualDuration c) = visemeData c"
  by (auto simp: scaleVisemes_def Let_def)

theorem scaleVisemes_scales_witness:
  "estimatedDuration (init_closure two_events) = 1
   \<and> scaledVisemes (scaleVisemes 2 (init_closure two_events)) = [ev 1 0 1, ev 5 1 1]
   \<and> scaledVisemes (scaleVisemes 0 (init_closure two_events)) = two_events
   \<and> visemeData (scaleVisemes 2 (init_closure two_events)) = two_events"
proof -
  let ?c = "init_closure two_events"
  have e: "estimatedDuration ?c = 1"
    by (simp add: init_closure_def two_events_def ev_def num_or_def)
  have v: "visemeData ?c = two_events" by (simp add: init_closure_def)
  note T2 = scaleVisemes_scales [of ?c 2]
  note T0 = scaleVisemes_scales [of ?c 0]
  from T2 e v have l: "length (scaledVisemes (scaleVisemes 2 ?c)) = 2"
    by (simp add: two_events_def)
  from T0 v have z: "scaledVisemes (scaleVisemes 0 ?c) = two_events" by simp
  from T2 v have u: "visemeData (scaleVisemes 2 ?c) = two_events" by simp
  have "scaledVisemes (scaleVisemes 2 ?c) = [ev 1 0 1, ev 5 1 1]"
    using e v by (simp add: scaleVisemes_def two_events_def ev_def num_or_def)
  with e z u show ?thesis by simp
qed

text \<open>
  C10. \<open>scaleVisemes\<close> copies the category, the end field and every further field of each
  event unchanged into the scaled sequence. An explicit end is not multiplied by the
  scale: when the sequence is rescaled by a factor other than 1, an event whose non-zero
  end was start plus duration has an end that differs from its rescaled start plus
  duration.
\<close>

theorem scaleVisemes_keeps_other_fields:
  "length (scaledVisemes (scaleVisemes actualDuration c)) = length (visemeData c)
   \<and> (\<forall>i < length (visemeData c).
         viseme (scaledVisemes (scaleVisemes actualDuration c) ! i) = viseme (visemeData c ! i)
         \<and> end_time (scaledVisemes (scaleVisemes actualDuration c) ! i)
             = end_time (visemeData c ! i)
         \<and> viseme_event.more (scaledVisemes (scaleVisemes actualDuration c) ! i)
             = viseme_event.more (visemeData c ! i)
         \<and> (\<forall>e. estimatedDuration c > 0 \<and> actualDuration > 0
                 \<and> actualDuration \<noteq> estimatedDuration c
                 \<and> end_time (visemeData c ! i) = Some e \<and> e \<noteq> 0
                 \<and> e = num_or (start (visemeData c ! i)) 0
                       + num_or (duration (visemeData c ! i)) 0
               \<longrightarrow> Some (num_or (start (scaledVisemes (scaleVisemes actualDuration c) ! i)) 0
                         + num_or (duration (scaledVisemes (scaleVisemes actualDuration c) ! i)) 0)
                   \<noteq> end_time (scaledVisemes (scaleVisemes actualDuration c) ! i)))"
proof (intro conjI allI impI)
  show "length (scaledVisemes (scaleVisemes actualDuration c)) = length (visemeData c)"
    by (simp add: scaleVisemes_def Let_def)
next
  fix i assume i: "i < length (visemeData c)"
  show "viseme (scaledVisemes (scaleVisemes actualDuration c) ! i) = viseme (visemeData c ! i)"
    using i by (simp add: scaleVisemes_def Let_def)
  show "end_time (scaledVisemes (scaleVisemes actualDuration c) ! i)
          = end_time (visemeData c ! i)"
    using i by (simp add: scaleVisemes_def Let_def)
  show "viseme_event.more (scaledVisemes (scaleVisemes actualDuration c) ! i)
          = viseme_event.more (visemeData c ! i)"
    using i by (simp add: scaleVisemes_def Let_def)
next
  fix i e
  assume i: "i < length (visemeData c)"
  assume h: "estimatedDuration c > 0 \<and> actualDuration > 0
             \<and> actualDuration \<noteq> estimatedDuration c
             \<and> end_time (visemeData c ! i) = Some e \<and> e \<noteq> 0
             \<and> e = num_or (start (visemeData c ! i)) 0
                   + num_or (duration (visemeData c ! i)) 0"
  define k where "k = actualDuration / estimatedDuration c"
  have k: "k \<noteq> 1" using h by (simp add: k_def)
  let ?w = "scaledVisemes (scaleVisemes actualDuration c) ! i"
  have "num_or (start ?w) 0 + num_or (duration ?w) 0 = e * k"
    using i h by (simp add: scaleVisemes_def Let_def num_or_Some_zero k_def algebra_simps)
  moreover have "end_time ?w = Some e"
    using i h by (simp add: scaleVisemes_def Let_def)
  moreover have "e * k \<noteq> e" using h k by simp
  ultimately show "Some (num_or (start ?w) 0 + num_or (duration ?w) 0) \<noteq> end_time ?w"
    by simp
qed

theorem scaleVisemes_keeps_other_fields_witness:
  "0 < length (visemeData (init_closure ended_events))
   \<and> estimatedDuration (init_closure ended_events) = 1
   \<and> scaledVisemes (scaleVisemes 2 (init_closure ended_events))
       = [\<lparr>viseme = Some 1, start = Some 0, duration = Some 2, end_time = Some 1\<rparr>]"
proof -
  let ?c = "init_closure ended_events"
  have l: "0 < length (visemeData ?c)" by (simp add: init_closure_def ended_events_def)
  have e: "estimatedDuration ?c = 1"
    by (simp add: init_closure_def ended_events_def num_or_def)
  note T = scaleVisemes_keeps_other_fields [of 2 ?c]
  from T l have "end_time (scaledVisemes (scaleVisemes 2 ?c) ! 0) = end_time (visemeData ?c ! 0)"
    by blast
  then have "end_time (scaledVisemes (scaleVisemes 2 ?c) ! 0) = Some 1"
    by (simp add: init_closure_def ended_events_def)
  moreover have "scaledVisemes (scaleVisemes 2 ?c)
       = [\<lparr>viseme = Some 1, start = Some 0, duration = Some 2, end_time = Some 1\<rparr>]"
    using e by (simp add: scaleVisemes_def init_closure_def ended_events_def num_or_def)
  ultimately show ?thesis using l e by simp
qed

section \<open>FrameInterpolator\<close>




text \<open>
  C5. In the transitioning state the progress is bounded above by 1 only:
  \<open>Math.min(elapsed / transitionDuration, 1.0)\<close> has no lower bound, so a time before
  \<open>transitionStartTime\<close> gives a negative progress and an eased value above 1. With the
  default duration 0.05, a transition from frame 1 to frame 3 started at 0.1 and a query at
  time 0, the progress is -2, the eased value 8 and the frame returned 17, outside the
  range from 1 to 3.
\<close>

theorem negative_elapsed_overshoots:
  "fst (getInterpolatedFrame 0 overshoot_state) = Some 17
   \<and> \<not> (min (currentFrame overshoot_state) (targetFrame overshoot_state) \<le> 17
          \<and> 17 \<le> max (currentFrame overshoot_state) (targetFrame overshoot_state))"
  by (simp add: getInterpolatedFrame_def overshoot_state_def Let_def)

text \<open>
  From \<open>transitionStartTime\<close> on, with a positive duration, the frame does lie between
  \<open>currentFrame\<close> and \<open>targetFrame\<close>.
\<close>

lemma interpolated_between:
  assumes "0 < transitionDuration s" "transitionStartTime s \<le> now"
  shows "\<exists>k. fst (getInterpolatedFrame now s) = Some k
             \<and> min (currentFrame s) (targetFrame s) \<le> k
             \<and> k \<le> max (currentFrame s) (targetFrame s)"
proof (cases "isTransitioning s")
  case False
  then show ?thesis by (simp add: getInterpolatedFrame_def)
next
  case True
  define p where "p = (now - transitionStartTime s) / transitionDuration s"
  have p0: "0 \<le> p" using assms by (simp add: p_def)
  show ?thesis
  proof (cases "1 \<le> p")
    case True
    then show ?thesis using assms \<open>isTransitioning s\<close>
      by (simp add: getInterpolatedFrame_def Let_def p_def [symmetric])
  next
    case False
    then have "p < 1" by simp
    then have "now - transitionStartTime s < transitionDuration s"
      using assms(1) by (simp add: p_def)
    moreover have "min p 1 = p" using \<open>p < 1\<close> by simp
    ultimately have f: "fst (getInterpolatedFrame now s)
                    = Some (blend (currentFrame s) (targetFrame s) (ease p))"
      using assms(1) \<open>isTransitioning s\<close> \<open>p < 1\<close>
      by (simp add: getInterpolatedFrame_def Let_def p_def [symmetric] blend_def ease_def)
    have "0 \<le> ease p" "ease p \<le> 1" using p0 \<open>p < 1\<close> ease_range [of p] by simp_all
    from blend_between [OF this, of "currentFrame s" "targetFrame s"] f
    show ?thesis by simp
  qed
qed

section \<open>The playback guard\<close>

text \<open>
  C6. The guard does not stop a new utterance from ending the one that plays. A new
  utterance is a change of \<open>currentSpeech\<close>: the cleanup that the previous run returned runs
  first, pauses and unloads the playing element, cancels the animation frame, resets the
  published viseme and speaking state and clears \<open>isPlayingRef\<close>; the body then finds the
  guard clear and creates a new element. From the state reached by starting an utterance
  and its \<open>onplay\<close>, and from a state with an animation frame pending and viseme 3
  published, a second utterance leaves element 0 paused with an empty source and
  \<open>audioRef\<close> at the new element 1.
\<close>

theorem new_speech_interrupts:
  "isPlayingRef started_playback \<and> audioRef started_playback = Some 0
   \<and> \<not> paused (audios started_playback ! 0)
   \<and> audioRef (speech_changed (Some next_speech) started_playback) = Some 1
   \<and> audios (speech_changed (Some next_speech) started_playback) =
       [\<lparr>paused = True, currentTime = 0, src = []\<rparr>,
        \<lparr>paused = True, currentTime = 0, src = ''data:audio/mp3;base64,BBBB''\<rparr>]
   \<and> isPlayingRef (speech_changed (Some next_speech) started_playback) = False
   \<and> isSpeaking (speech_changed (Some next_speech) started_playback) = False
   \<and> isPlayingRef playing_state \<and> audioRef playing_state = Some 0
   \<and> animationRef playing_state = Some 7 \<and> visemeIndex playing_state = 3
   \<and> audioRef (speech_changed (Some next_speech) playing_state) = Some 1
   \<and> audios (speech_changed (Some next_speech) playing_state) =
       [\<lparr>paused = True, currentTime = 0, src = []\<rparr>,
        \<lparr>paused = True, currentTime = 0, src = ''data:audio/mp3;base64,BBBB''\<rparr>]
   \<and> animationRef (speech_changed (Some next_speech) playing_state) = None
   \<and> cancelledFrames (speech_changed (Some next_speech) playing_state) = [7]
   \<and> visemeIndex (speech_changed (Some next_speech) playing_state) = 0
   \<and> isSpeaking (speech_changed (Some next_speech) playing_state) = False"
  by (simp add: started_playback_fields playing_state_def next_speech_def two_events_def
        speech_changed_def playback_cleanup_def playback_effect_def stop_audio_def
        cancel_animation_def Let_def)

text \<open>
  What the guard and the teardown do establish: the cleanup clears the guard and the refs;
  the body run with the guard set returns the state as it was (\<open>effect_body_guard\<close>); and
  a change of \<open>currentSpeech\<close> and the play timer keep every playing element the one
  \<open>audioRef\<close> holds, so that no two elements play (\<open>speech_changed_single\<close>,
  \<open>play_timer_single\<close>, \<open>single_playing_unique\<close>).
\<close>

lemma cleanup_clears_guard:
  "isPlayingRef (playback_cleanup s) = False" "audioRef (playback_cleanup s) = None"
  "animationRef (playback_cleanup s) = None"
  by (simp_all add: playback_cleanup_def Let_def stop_audio_def cancel_animation_def
        split: option.splits)

section \<open>Candidate frames\<close>

text \<open>
  C7 (as amended). \<open>getFrameForViseme\<close> takes as candidate list the entry of the category
  when there is one, else the entry of category 0 when there is one, else \<open>[1]\<close>, and then
  the frame is 1 when both are absent. An entry that is present but empty is not replaced:
  it is the candidate list, and an empty candidate list yields frame 1. Where neither
  entry consulted is empty, the candidate list is the one the specification describes.
\<close>

theorem getFrameForViseme_candidates:
  "(\<forall>fs. fm c = Some fs \<longrightarrow> candidateFrames_of fm c = fs)
   \<and> (\<forall>fs. fm c = None \<and> fm 0 = Some fs \<longrightarrow> candidateFrames_of fm c = fs)
   \<and> (fm c = None \<and> fm 0 = None \<longrightarrow>
        candidateFrames_of fm c = [1] \<and> getFrameForViseme c vs t fm = Some 1)
   \<and> (candidateFrames_of fm c = [] \<longrightarrow> getFrameForViseme c vs t fm = Some 1)
   \<and> (fm c = Some [] \<longrightarrow> getFrameForViseme c vs t fm = Some 1)
   \<and> (fm c \<noteq> Some [] \<and> fm 0 \<noteq> Some [] \<longrightarrow>
        candidateFrames_of fm c = candidateFrames_spec fm c)"
proof (intro conjI allI impI)
  fix fs assume "fm c = Some fs"
  then show "candidateFrames_of fm c = fs" by (simp add: candidateFrames_of_def)
next
  fix fs assume "fm c = None \<and> fm 0 = Some fs"
  then show "candidateFrames_of fm c = fs" by (simp add: candidateFrames_of_def)
next
  assume a: "fm c = None \<and> fm 0 = None"
  then show "candidateFrames_of fm c = [1]" by (simp add: candidateFrames_of_def)
  then show "getFrameForViseme c vs t fm = Some 1"
    by (simp add: getFrameForViseme_def Let_def js_nth_def smod_int_alt_def
             split: option.splits)
next
  assume "candidateFrames_of fm c = []"
  then show "getFrameForViseme c vs t fm = Some 1" by (simp add: getFrameForViseme_def)
next
  assume "fm c = Some []"
  then show "getFrameForViseme c vs t fm = Some 1"
    by (simp add: getFrameForViseme_def candidateFrames_of_def)
next
  assume "fm c \<noteq> Some [] \<and> fm 0 \<noteq> Some []"
  then show "candidateFrames_of fm c = candidateFrames_spec fm c"
    by (auto simp: candidateFrames_of_def candidateFrames_spec_def nonempty_entry_def
             split: option.splits)
qed

theorem getFrameForViseme_candidates_witness:
  "candidateFrames_of [0 \<mapsto> [4, 5]] 3 = [4, 5]
   \<and> candidateFrames_of [3 \<mapsto> [6]] 3 = [6]
   \<and> getFrameForViseme 3 two_events 0 Map.empty = Some 1
   \<and> getFrameForViseme 2 two_events 0 empty_entry_map = Some 1
   \<and> candidateFrames_of [0 \<mapsto> [4, 5]] 3 = candidateFrames_spec [0 \<mapsto> [4, 5]] 3"
proof -
  note A = getFrameForViseme_candidates [of "[0 \<mapsto> [4, 5]]" 3 two_events 0]
  note B = getFrameForViseme_candidates [of "[3 \<mapsto> [6]]" 3 two_events 0]
  note C = getFrameForViseme_candidates [of Map.empty 3 two_events 0]
  note D = getFrameForViseme_candidates [of empty_entry_map 2 two_events 0]
  from A have "candidateFrames_of [0 \<mapsto> [4, 5]] 3 = [4, 5]" by simp
  moreover from B have "candidateFrames_of [3 \<mapsto> [6]] 3 = [6]" by simp
  moreover from C have "getFrameForViseme 3 two_events 0 Map.empty = Some 1" by simp
  moreover from D have "getFrameForViseme 2 two_events 0 empty_entry_map = Some 1"
    by (simp add: empty_entry_map_def)
  moreover have "[0 \<mapsto> [4, 5]] (3::int) \<noteq> Some [] \<and> [0 \<mapsto> [4, 5]] (0::int) \<noteq> Some ([]::int list)"
    by simp
  with A have "candidateFrames_of [0 \<mapsto> [4, 5]] 3 = candidateFrames_spec [0 \<mapsto> [4, 5]] 3"
    by blast
  ultimately show ?thesis by simp
qed

text \<open>
  With an empty entry for category 2 and the entry \<open>[7]\<close> for category 0, falling back would
  give the list \<open>[7]\<close>; the code keeps the empty list and returns frame 1.
\<close>

theorem empty_entry_counterexample:
  "empty_entry_map 2 = Some []
   \<and> candidateFrames_spec empty_entry_map 2 = [7]
   \<and> candidateFrames_of empty_entry_map 2 = []
   \<and> getFrameForViseme 2 [] 0 empty_entry_map = Some 1"
  by (simp add: empty_entry_map_def candidateFrames_spec_def nonempty_entry_def
        candidateFrames_of_def getFrameForViseme_def)

section \<open>Missing fields\<close>

text \<open>
  C8. The lookup after the scan reads \<open>lastViseme.start\<close> without the default 0 that the
  scans apply, so a last event without a start (and without a truthy end) makes the sum
  \<open>NaN\<close> and the result 0, where the same sequence with its missing fields replaced by 0
  gives the category of the last event: for the single event \<open>{viseme: 3, duration: 1}\<close> at
  time -0.5, and for 49 events \<open>{viseme: 1, start: 10, duration: 1}\<close> followed by that event
  at time 0.5.
\<close>

theorem lookup_missing_start:
  "getVisemeAtTime (- 1 / 2) (Some [no_start]) = Inr 0
   \<and> getVisemeAtTime (- 1 / 2) (Some (map fill_missing [no_start])) = Inr 3
   \<and> getVisemeAtTime (1 / 2) (Some late50) = Inr 0
   \<and> getVisemeAtTime (1 / 2) (Some (map fill_missing late50)) = Inr 3"
proof -
  have a: "getVisemeAtTime (- 1 / 2) (Some [no_start]) = Inr 0"
    by (simp add: getVisemeAtTime_def no_start_def past_end_def last_end_def truthy_def
          js_less_def num_or_def)
  have b: "getVisemeAtTime (- 1 / 2) (Some (map fill_missing [no_start])) = Inr 3"
    by (simp add: getVisemeAtTime_def no_start_def fill_missing_def past_end_def last_end_def
          truthy_def js_less_def num_or_def int_or_def)
  have c: "getVisemeAtTime (1 / 2) (Some late50) = Inr 0"
    by (simp add: getVisemeAtTime_def late50_length late50_search past_end_def late50_last
          last_end_def truthy_def js_less_def no_start_def)
  have d: "getVisemeAtTime (1 / 2) (Some (map fill_missing late50)) = Inr 3"
    by (simp add: getVisemeAtTime_def late50_length late50_filled_search past_end_def
          late50_filled_last fill_missing_no_start last_end_def truthy_def js_less_def
          num_or_def int_or_def)
  from a b c d show ?thesis by simp
qed

text \<open>
  On a sequence of event objects the lookup returns a category for every time, and apart
  from that last event the defaults agree: when the last event has a start or a truthy
  end, replacing the missing fields by 0 does not change the result.
\<close>

lemma getVisemeAtTime_returns: "\<exists>c. getVisemeAtTime t vso = Inr c"
proof (cases vso)
  case None
  then show ?thesis by (simp add: getVisemeAtTime_def)
next
  case (Some vs)
  show ?thesis
  proof (cases "vs = []")
    case True
    then show ?thesis using Some by (simp add: getVisemeAtTime_def)
  next
    case False
    then have "\<exists>r. binary_search t vs 0 (int (length vs) - 1) = Inr r"
      using binary_search_result [of 0 "int (length vs) - 1" vs t] by auto
    then show ?thesis using Some False
      by (auto simp: getVisemeAtTime_def split: option.splits)
  qed
qed

lemma lookup_fill:
  assumes "vs = [] \<or> start (last vs) \<noteq> None \<or> truthy (end_time (last vs))"
  shows "getVisemeAtTime t (Some (map fill_missing vs)) = getVisemeAtTime t (Some vs)"
proof (cases "vs = []")
  case True
  then show ?thesis by (simp add: getVisemeAtTime_def)
next
  case False
  then have p: "past_end t (map fill_missing vs) = past_end t vs"
    using assms past_end_fill by blast
  have "binary_search t (map fill_missing vs) 0 (int (length vs) - 1)
          = binary_search t vs 0 (int (length vs) - 1)"
    using binary_search_fill [of 0 "int (length vs) - 1" vs t] by simp
  then show ?thesis using False p
    by (simp add: getVisemeAtTime_def linear_scan_fill split: option.splits sum.splits)
qed

section \<open>Explicit end fields\<close>



end
